theory Spec2Isabelle
  imports Complex_Main "HOL-Library.AList" "HOL-Library.Sublist"
begin

section \<open>Python values\<close>

text \<open>
  A Python \<open>str\<close> is a sequence of Unicode code points, and \<open>len\<close> counts code points.
  It is modelled as the list of its code points; an ASCII literal is written with
  \<open>ascii\<close>.
\<close>

type_synonym ustr = "nat list"

definition ascii :: "string \<Rightarrow> ustr" where
  "ascii s = map of_char s"

section \<open>config.py\<close>

text \<open>
  A dataclass does not check the types of its fields, so every field holds any
  configuration value. Floats are only stored and copied here.
\<close>

datatype cfg_value = CStr ustr | CInt int | CFloat real

record RAGConfig =
  data_path :: cfg_value
  index_save_path :: cfg_value
  embedding_model :: cfg_value
  llm_model :: cfg_value
  top_k :: cfg_value
  top_cmp_k :: cfg_value
  temperature :: cfg_value
  max_tokens :: cfg_value

datatype py_error = TypeError | ValueError | AttributeError

text \<open>The field defaults of the dataclass; \<open>DEFAULT_CONFIG = RAGConfig()\<close>.\<close>

definition DEFAULT_CONFIG :: RAGConfig where
  "DEFAULT_CONFIG = \<lparr>
     data_path = CStr (ascii ''data''),
     index_save_path = CStr (ascii ''index''),
     embedding_model = CStr (ascii ''BAAI/bge-small-zh-v1.5''),
     llm_model = CStr (ascii ''deepseek-reasoner''),
     top_k = CInt 10,
     top_cmp_k = CInt 3,
     temperature = CFloat (7 / 10),
     max_tokens = CInt 2048 \<rparr>"

text \<open>
  \<open>cls(**config_dict)\<close>: every keyword must name a field (otherwise \<open>TypeError\<close>);
  a field without a keyword keeps its default.
\<close>

fun set_field :: "string \<Rightarrow> cfg_value \<Rightarrow> RAGConfig \<Rightarrow> py_error + RAGConfig" where
  "set_field k v c =
     (if k = ''data_path'' then Inr (c\<lparr>data_path := v\<rparr>)
      else if k = ''index_save_path'' then Inr (c\<lparr>index_save_path := v\<rparr>)
      else if k = ''embedding_model'' then Inr (c\<lparr>embedding_model := v\<rparr>)
      else if k = ''llm_model'' then Inr (c\<lparr>llm_model := v\<rparr>)
      else if k = ''top_k'' then Inr (c\<lparr>top_k := v\<rparr>)
      else if k = ''top_cmp_k'' then Inr (c\<lparr>top_cmp_k := v\<rparr>)
      else if k = ''temperature'' then Inr (c\<lparr>temperature := v\<rparr>)
      else if k = ''max_tokens'' then Inr (c\<lparr>max_tokens := v\<rparr>)
      else Inl TypeError)"

fun init_from :: "(string \<times> cfg_value) list \<Rightarrow> RAGConfig \<Rightarrow> py_error + RAGConfig" where
  "init_from [] c = Inr c"
| "init_from ((k, v) # kvs) c =
     (case set_field k v c of Inl e \<Rightarrow> Inl e | Inr c' \<Rightarrow> init_from kvs c')"

definition from_dict :: "(string \<times> cfg_value) list \<Rightarrow> py_error + RAGConfig" where
  "from_dict config_dict = init_from config_dict DEFAULT_CONFIG"

definition to_dict :: "RAGConfig \<Rightarrow> (string \<times> cfg_value) list" where
  "to_dict c =
     [(''data_path'', data_path c),
      (''index_save_path'', index_save_path c),
      (''embedding_model'', embedding_model c),
      (''llm_model'', llm_model c),
      (''top_k'', top_k c),
      (''temperature'', temperature c),
      (''max_tokens'', max_tokens c)]"

section \<open>Documents and dictionaries\<close>

text \<open>
  Metadata values are \<open>None\<close>, strings or integers. A \<open>dict\<close> keeps its keys in
  insertion order: it is an association list with distinct keys, read with
  \<open>map_of\<close> and written with \<open>AList.update\<close> (an existing key keeps its place, a
  new key goes to the end).
\<close>

datatype pyval = PNone | PStr ustr | PInt int

type_synonym pydict = "(string \<times> pyval) list"

record Document =
  page_content :: ustr
  metadata :: pydict

text \<open>\<open>d.get(k)\<close> and \<open>d.get(k, default)\<close>.\<close>

definition dict_get :: "('k \<times> pyval) list \<Rightarrow> 'k \<Rightarrow> pyval" where
  "dict_get d k = (case map_of d k of None \<Rightarrow> PNone | Some v \<Rightarrow> v)"

definition dict_get_default :: "('k \<times> 'v) list \<Rightarrow> 'k \<Rightarrow> 'v \<Rightarrow> 'v" where
  "dict_get_default d k dflt = (case map_of d k of None \<Rightarrow> dflt | Some v \<Rightarrow> v)"

text \<open>\<open>k in d\<close>.\<close>

definition dict_has :: "('k \<times> 'v) list \<Rightarrow> 'k \<Rightarrow> bool" where
  "dict_has d k = (map_of d k \<noteq> None)"

text \<open>Truth value of an object, as tested by \<open>if x\<close> and \<open>not x\<close>.\<close>

fun truthy :: "pyval \<Rightarrow> bool" where
  "truthy PNone = False"
| "truthy (PStr s) = (s \<noteq> [])"
| "truthy (PInt n) = (n \<noteq> 0)"

text \<open>
  \<open>sorted(xs, key = f, reverse = True)\<close>: the list is reversed, sorted stably in
  ascending order of the key, and reversed again, so that elements with equal keys keep
  their original order.
\<close>

definition py_sorted_reverse :: "('a \<Rightarrow> 'b::linorder) \<Rightarrow> 'a list \<Rightarrow> 'a list" where
  "py_sorted_reverse f xs = rev (sort_key f (rev xs))"

section \<open>ingest/data_preparation.py: parent aggregation\<close>

definition parent_id_of :: "Document \<Rightarrow> pyval" where
  "parent_id_of d = dict_get (metadata d) ''parent_id''"

text \<open>
  The inner loop of \<open>get_parent_documents\<close>: the first parent document whose
  \<open>parent_id\<close> equals \<open>pid\<close>, if there is one.
\<close>

definition find_parent :: "Document list \<Rightarrow> pyval \<Rightarrow> Document option" where
  "find_parent parent_documents pid = List.find (\<lambda>p. parent_id_of p = pid) parent_documents"

text \<open>
  One iteration of the loop over the child chunks, on the pair of dictionaries
  \<open>(parent_scores, parent_map)\<close>.
\<close>

definition aggregate_step ::
  "Document list \<Rightarrow> (pyval \<times> int) list \<times> (pyval \<times> Document) list \<Rightarrow> Document
     \<Rightarrow> (pyval \<times> int) list \<times> (pyval \<times> Document) list" where
  "aggregate_step parent_documents st c =
     (let parent_scores = fst st; parent_map = snd st; pid = parent_id_of c in
      if \<not> truthy pid then st
      else
        (AList.update pid (dict_get_default parent_scores pid 0 + 1) parent_scores,
         if dict_has parent_map pid then parent_map
         else (case find_parent parent_documents pid of
                 None \<Rightarrow> parent_map
               | Some p \<Rightarrow> AList.update pid p parent_map)))"

definition get_parent_documents :: "Document list \<Rightarrow> Document list \<Rightarrow> Document list" where
  "get_parent_documents parent_documents child_chunks =
     (let st = foldl (aggregate_step parent_documents) ([], []) child_chunks;
          parent_scores = fst st; parent_map = snd st;
          sorted_pids = py_sorted_reverse (\<lambda>x. dict_get_default parent_scores x 0)
                          (map fst parent_scores)
      in List.map_filter (map_of parent_map) sorted_pids)"

text \<open>
  Notions used to state the ranking: the position of the first occurrence of a value in a
  list, and the state of the two dictionaries after the loop has run over a list of chunks.
\<close>

definition first_pos :: "'a list \<Rightarrow> 'a \<Rightarrow> nat" where
  "first_pos xs x = length (takeWhile (\<lambda>y. y \<noteq> x) xs)"

definition agg_state ::
  "Document list \<Rightarrow> Document list \<Rightarrow> (pyval \<times> int) list \<times> (pyval \<times> Document) list" where
  "agg_state parents cs = foldl (aggregate_step parents) ([], []) cs"

text \<open>A small corpus and a list of hits, for concrete runs.\<close>

definition song :: "string \<Rightarrow> Document" where
  "song s = \<lparr>page_content = ascii s, metadata = [(''parent_id'', PStr (ascii s))]\<rparr>"

definition hit :: "string \<Rightarrow> Document" where
  "hit s = \<lparr>page_content = [],
             metadata = [(''chunk_index'', PInt 0), (''parent_id'', PStr (ascii s))]\<rparr>"

definition example_parents :: "Document list" where
  "example_parents = [song ''a'', song ''b'', song ''c'']"

definition example_hits :: "Document list" where
  "example_hits = [hit ''b'', hit ''a'', hit ''c'', hit ''a'', hit ''z'', hit ''c'',
                   \<lparr>page_content = [], metadata = []\<rparr>]"

section \<open>cli.py: filter inference\<close>

text \<open>
  The values of one metadata field over the corpus are collected in a \<open>set\<close> and
  \<open>None\<close> is discarded. The order in which a set is enumerated depends on the hashes of
  its elements; it is a parameter \<open>iter\<close> of the model, which maps the elements put
  into the set to their enumeration, and \<open>set_order\<close> says that it enumerates each
  element once.
\<close>

definition set_order :: "(pyval list \<Rightarrow> pyval list) \<Rightarrow> bool" where
  "set_order iter = (\<forall>xs. set (iter xs) = set xs \<and> distinct (iter xs))"

definition field_values :: "(pyval list \<Rightarrow> pyval list) \<Rightarrow> string \<Rightarrow> Document list \<Rightarrow> pyval list" where
  "field_values iter key parent_documents =
     iter (filter (\<lambda>v. v \<noteq> PNone) (map (\<lambda>d. dict_get (metadata d) key) parent_documents))"

fun is_str :: "pyval \<Rightarrow> bool" where
  "is_str (PStr s) = True"
| "is_str _ = False"

fun str_of :: "pyval \<Rightarrow> ustr" where
  "str_of (PStr s) = s"
| "str_of _ = []"

text \<open>
  \<open>sorted(values, key = len, reverse = True)\<close>; \<open>len\<close> of an integer raises
  \<open>TypeError\<close>.
\<close>

definition sorted_by_len :: "pyval list \<Rightarrow> py_error + ustr list" where
  "sorted_by_len vals =
     (if list_all is_str vals then Inr (py_sorted_reverse length (map str_of vals))
      else Inl TypeError)"

text \<open>
  The loop over the artists stops at the first value that is non-empty and occurs in the
  query (\<open>break\<close>); the loops over the other four fields have no \<open>break\<close> and
  assign at every such value.
\<close>

fun scan_break :: "string \<Rightarrow> ustr \<Rightarrow> ustr list \<Rightarrow> (string \<times> ustr) list \<Rightarrow> (string \<times> ustr) list" where
  "scan_break key query [] filters = filters"
| "scan_break key query (v # vs) filters =
     (if v \<noteq> [] \<and> sublist v query then AList.update key v filters
      else scan_break key query vs filters)"

fun scan_all :: "string \<Rightarrow> ustr \<Rightarrow> ustr list \<Rightarrow> (string \<times> ustr) list \<Rightarrow> (string \<times> ustr) list" where
  "scan_all key query [] filters = filters"
| "scan_all key query (v # vs) filters =
     scan_all key query vs
       (if v \<noteq> [] \<and> sublist v query then AList.update key v filters else filters)"

definition extract_filters_from_query ::
  "(pyval list \<Rightarrow> pyval list) \<Rightarrow> Document list \<Rightarrow> ustr \<Rightarrow> py_error + (string \<times> ustr) list" where
  "extract_filters_from_query iter parent_documents query =
     (let artists = field_values iter ''artist'' parent_documents;
          albums = field_values iter ''album'' parent_documents;
          regions = field_values iter ''region'' parent_documents;
          years = field_values iter ''year'' parent_documents;
          titles = field_values iter ''title'' parent_documents
      in case sorted_by_len artists of Inl e \<Rightarrow> Inl e | Inr s1 \<Rightarrow>
         let f1 = scan_break ''artist'' query s1 [] in
         case sorted_by_len albums of Inl e \<Rightarrow> Inl e | Inr s2 \<Rightarrow>
         let f2 = scan_all ''album'' query s2 f1 in
         case sorted_by_len regions of Inl e \<Rightarrow> Inl e | Inr s3 \<Rightarrow>
         let f3 = scan_all ''region'' query s3 f2 in
         case sorted_by_len years of Inl e \<Rightarrow> Inl e | Inr s4 \<Rightarrow>
         let f4 = scan_all ''year'' query s4 f3 in
         case sorted_by_len titles of Inl e \<Rightarrow> Inl e | Inr s5 \<Rightarrow>
         Inr (scan_all ''title'' query s5 f4))"

text \<open>
  Notions used to state what a filter set contains: a value observed in the metadata of some
  parent document under a field, and an admissible entry of a filter set.
\<close>

definition observed :: "Document list \<Rightarrow> string \<Rightarrow> ustr \<Rightarrow> bool" where
  "observed docs k v = (\<exists>d\<in>set docs. dict_get (metadata d) k = PStr v)"

definition filter_ok :: "Document list \<Rightarrow> ustr \<Rightarrow> string \<times> ustr \<Rightarrow> bool" where
  "filter_ok docs query kv =
     (fst kv \<in> {''artist'', ''album'', ''region'', ''year'', ''title''} \<and> snd kv \<noteq> [] \<and>
      sublist (snd kv) query \<and> observed docs (fst kv) (snd kv))"

text \<open>A corpus of two songs whose album names are nested, and a query naming the longer.\<close>

definition song_of :: "string \<Rightarrow> string \<Rightarrow> string \<Rightarrow> Document" where
  "song_of t a b = \<lparr>page_content = [],
      metadata = [(''title'', PStr (ascii t)), (''artist'', PStr (ascii a)), (''album'', PStr (ascii b))]\<rparr>"

definition album_corpus :: "Document list" where
  "album_corpus = [song_of ''Dawn'' ''Ann'' ''Rose'', song_of ''Dusk'' ''Ann Lee'' ''Rose Garden'']"

definition album_query :: ustr where
  "album_query = ascii ''Ann Lee in Rose Garden''"

section \<open>generation/generation_integration.py: list answers\<close>

text \<open>
  \<open>str(n)\<close> for an integer, and the text that an f-string inserts for a value: \<open>None\<close>
  is written \<open>None\<close>, an integer in decimal, a string as it is.
\<close>

fun dec :: "nat \<Rightarrow> ustr" where
  "dec n = (if n < 10 then [48 + n] else dec (n div 10) @ [48 + n mod 10])"

definition str_int :: "int \<Rightarrow> ustr" where
  "str_int i = (if i < 0 then 45 # dec (nat (- i)) else dec (nat i))"

fun py_str :: "pyval \<Rightarrow> ustr" where
  "py_str PNone = ascii ''None''"
| "py_str (PStr s) = s"
| "py_str (PInt i) = str_int i"

text \<open>\<open>sep.join(xs)\<close>.\<close>

fun py_join :: "ustr \<Rightarrow> ustr list \<Rightarrow> ustr" where
  "py_join sep [] = []"
| "py_join sep [x] = x"
| "py_join sep (x # y # ys) = x @ sep @ py_join sep (y # ys)"

text \<open>
  The string literals of \<open>generate_list_answer\<close>, as code points: the apology
  (``sorry, no related song information was found.''), the heading for one song
  (``recommended for you:''), the heading for several songs (``the following songs are
  recommended for you:'' and a newline), and the two parts of the closing line around the
  number of songs left out (``there are'' \<dots> ``more songs to choose from''). The default
  title is ``unknown song''.
\<close>

definition apology_list :: ustr where
  "apology_list = [25265, 27465, 65292, 27809, 26377, 25214, 21040, 30456, 20851, 30340,
                   27468, 26354, 20449, 24687, 12290]"

definition recommend_one :: ustr where
  "recommend_one = [20026, 24744, 25512, 33616, 65306]"

definition recommend_many :: ustr where
  "recommend_many = [20026, 24744, 25512, 33616, 20197, 19979, 27468, 26354, 65306, 10]"

definition more_prefix :: ustr where
  "more_prefix = [10, 10, 36824, 26377, 20854, 20182, 32]"

definition more_suffix :: ustr where
  "more_suffix = [32, 39318, 27468, 26354, 21487, 20379, 36873, 25321]"

definition unknown_song :: ustr where
  "unknown_song = [26410, 30693, 27468, 26354]"

text \<open>
  The loop that collects the song names: the title of each document, appended unless it
  is already in the list.
\<close>

definition title_of :: "Document \<Rightarrow> pyval" where
  "title_of doc = dict_get_default (metadata doc) ''title'' (PStr unknown_song)"

definition song_names :: "Document list \<Rightarrow> pyval list" where
  "song_names context_docs =
     foldl (\<lambda>names doc. if title_of doc \<in> set names then names else names @ [title_of doc])
       [] context_docs"

text \<open>The numbered lines \<open>[f"{i+1}.{name}" for i, name in enumerate(names)]\<close>.\<close>

definition numbered :: "pyval list \<Rightarrow> ustr list" where
  "numbered names = map (\<lambda>(i, name). dec (i + 1) @ [46] @ py_str name) (enumerate 0 names)"

definition generate_list_answer :: "ustr \<Rightarrow> Document list \<Rightarrow> ustr" where
  "generate_list_answer query context_docs =
     (if context_docs = [] then apology_list
      else let names = song_names context_docs in
        if length names = 1 then recommend_one @ py_str (names ! 0)
        else if length names \<le> 15 then recommend_many @ py_join [10] (numbered names)
        else recommend_many @ py_join [10] (numbered (take 5 names))
               @ more_prefix @ str_int (int (length names) - 5) @ more_suffix)"

section \<open>Serialisation of the configuration\<close>

text \<open>
  C10. Reading back the dictionary written by \<open>to_dict\<close> succeeds and restores every
  field except \<open>top_cmp_k\<close>, which \<open>to_dict\<close> leaves out and which therefore takes
  the default 3 whatever it was before.
\<close>

theorem from_dict_to_dict:
  "from_dict (to_dict c) = Inr (c\<lparr>top_cmp_k := CInt 3\<rparr>)"
  by (cases c) (simp add: from_dict_def to_dict_def DEFAULT_CONFIG_def)

section \<open>Parent aggregation\<close>

subsection \<open>A stable sort in descending order\<close>

lemma insort_key_tie:
  assumes "sorted_wrt (\<lambda>a b. f a < f b \<or> (f a = f b \<and> T a b)) zs"
    and "\<forall>z\<in>set zs. T y z"
  shows "sorted_wrt (\<lambda>a b. f a < f b \<or> (f a = f b \<and> T a b)) (insort_key f y zs)"
  using assms
proof (induction zs)
  case Nil
  then show ?case by simp
next
  case (Cons z zs)
  show ?case
  proof (cases "f y \<le> f z")
    case True
    have "f y < f w \<or> (f y = f w \<and> T y w)" if "w \<in> set (z # zs)" for w
    proof -
      have "f z \<le> f w" using Cons.prems(1) that by auto
      with True have "f y \<le> f w" by simp
      moreover have "T y w" using Cons.prems(2) that by auto
      ultimately show ?thesis by auto
    qed
    with True Cons.prems(1) show ?thesis by simp
  next
    case False
    have "sorted_wrt (\<lambda>a b. f a < f b \<or> (f a = f b \<and> T a b)) (insort_key f y zs)"
      using Cons by simp
    moreover have "f z < f w \<or> (f z = f w \<and> T z w)" if "w \<in> set (insort_key f y zs)" for w
      using that Cons.prems(1) False by (auto simp: set_insort_key)
    ultimately show ?thesis using False by simp
  qed
qed

lemma sort_key_tie:
  assumes "sorted_wrt T ys"
  shows "sorted_wrt (\<lambda>a b. f a < f b \<or> (f a = f b \<and> T a b)) (sort_key f ys)"
  using assms
proof (induction ys)
  case Nil
  then show ?case by simp
next
  case (Cons y ys)
  then show ?case by (simp add: insort_key_tie)
qed

lemma py_sorted_reverse_sorted:
  assumes "sorted_wrt B xs"
  shows "sorted_wrt (\<lambda>a b. f b < f a \<or> (f a = f b \<and> B a b)) (py_sorted_reverse f xs)"
proof -
  have "sorted_wrt (\<lambda>a b. B b a) (rev xs)"
    using assms by (simp add: sorted_wrt_rev)
  then have "sorted_wrt (\<lambda>a b. f a < f b \<or> (f a = f b \<and> B b a)) (sort_key f (rev xs))"
    by (rule sort_key_tie)
  then have "sorted_wrt (\<lambda>a b. f b < f a \<or> (f b = f a \<and> B a b)) (py_sorted_reverse f xs)"
    unfolding py_sorted_reverse_def by (simp add: sorted_wrt_rev)
  then show ?thesis
    by (rule sorted_wrt_mono_rel[rotated]) auto
qed

lemma set_py_sorted_reverse: "set (py_sorted_reverse f xs) = set xs"
  by (simp add: py_sorted_reverse_def)

lemma distinct_py_sorted_reverse: "distinct (py_sorted_reverse f xs) = distinct xs"
  by (simp add: py_sorted_reverse_def)


subsection \<open>The loop over the chunks\<close>

lemma agg_state_Nil: "agg_state parents [] = ([], [])"
  by (simp add: agg_state_def)

lemma agg_state_snoc:
  "agg_state parents (cs @ [c]) = aggregate_step parents (agg_state parents cs) c"
  by (simp add: agg_state_def)

lemma count_list_snoc: "count_list (xs @ [y]) x = count_list xs x + (if x = y then 1 else 0)"
  by (induction xs) auto

lemma scores_map:
  "map_of (fst (agg_state parents cs)) pid =
     (if truthy pid \<and> pid \<in> set (map parent_id_of cs)
      then Some (int (count_list (map parent_id_of cs) pid)) else None)"
proof (induction cs arbitrary: pid rule: rev_induct)
  case Nil
  then show ?case by (simp add: agg_state_Nil)
next
  case (snoc c cs)
  show ?case
  proof (cases "truthy (parent_id_of c)")
    case False
    then show ?thesis
      using snoc by (auto simp: agg_state_snoc aggregate_step_def count_list_snoc)
  next
    case True
    then show ?thesis
      using snoc
      by (auto simp: agg_state_snoc aggregate_step_def count_list_snoc Let_def
            update_conv' dict_get_default_def count_list_0_iff)
  qed
qed


lemma parent_map_map:
  "map_of (snd (agg_state parents cs)) pid =
     (if truthy pid \<and> pid \<in> set (map parent_id_of cs)
      then find_parent parents pid else None)"
proof (induction cs arbitrary: pid rule: rev_induct)
  case Nil
  then show ?case by (simp add: agg_state_Nil)
next
  case (snoc c cs)
  show ?case
  proof (cases "truthy (parent_id_of c)")
    case False
    then show ?thesis
      using snoc by (auto simp: agg_state_snoc aggregate_step_def)
  next
    case True
    then show ?thesis
      using snoc
      by (auto simp: agg_state_snoc aggregate_step_def Let_def dict_has_def
            update_conv' split: option.splits)
  qed
qed

lemma score_keys_set:
  "set (map fst (fst (agg_state parents cs))) = {pid \<in> set (map parent_id_of cs). truthy pid}"
proof -
  have "set (map fst (fst (agg_state parents cs))) = dom (map_of (fst (agg_state parents cs)))"
    by (simp add: dom_map_of_conv_image_fst)
  also have "\<dots> = {pid \<in> set (map parent_id_of cs). truthy pid}"
    by (auto simp: dom_def scores_map)
  finally show ?thesis .
qed

lemma first_pos_snoc_old: "x \<in> set xs \<Longrightarrow> first_pos (xs @ [y]) x = first_pos xs x"
  by (simp add: first_pos_def takeWhile_append1)


lemma first_pos_less: "x \<in> set xs \<Longrightarrow> first_pos xs x < length xs"
  by (induction xs) (auto simp: first_pos_def)

lemma first_pos_snoc_new: "y \<notin> set xs \<Longrightarrow> first_pos (xs @ [y]) y = length xs"
  by (induction xs) (auto simp: first_pos_def)

lemma score_keys_order:
  "distinct (map fst (fst (agg_state parents cs))) \<and>
   sorted_wrt (\<lambda>a b. first_pos (map parent_id_of cs) a < first_pos (map parent_id_of cs) b)
     (map fst (fst (agg_state parents cs)))"
proof (induction cs rule: rev_induct)
  case Nil
  then show ?case by (simp add: agg_state_Nil)
next
  case (snoc c cs)
  let ?pids = "map parent_id_of cs"
  let ?keys = "map fst (fst (agg_state parents cs))"
  let ?y = "parent_id_of c"
  have keys: "set ?keys = {pid \<in> set ?pids. truthy pid}"
    by (rule score_keys_set)
  have old: "sorted_wrt (\<lambda>a b. first_pos (?pids @ [?y]) a < first_pos (?pids @ [?y]) b) ?keys"
  proof (rule sorted_wrt_mono_rel[OF _ conjunct2[OF snoc.IH]])
    fix a b
    assume "a \<in> set ?keys" "b \<in> set ?keys" "first_pos ?pids a < first_pos ?pids b"
    then show "first_pos (?pids @ [?y]) a < first_pos (?pids @ [?y]) b"
      using keys by (simp add: first_pos_snoc_old)
  qed
  show ?case
  proof (cases "truthy ?y \<and> ?y \<notin> set ?keys")
    case False
    then have "map fst (fst (agg_state parents (cs @ [c]))) = ?keys"
      by (auto simp: agg_state_snoc aggregate_step_def Let_def update_keys)
    then show ?thesis using snoc.IH old by simp
  next
    case True
    then have new: "map fst (fst (agg_state parents (cs @ [c]))) = ?keys @ [?y]"
      by (auto simp: agg_state_snoc aggregate_step_def Let_def update_keys)
    have "?y \<notin> set ?pids" using True keys by auto
    then have "first_pos (?pids @ [?y]) ?y = length ?pids"
      by (rule first_pos_snoc_new)
    moreover have "first_pos (?pids @ [?y]) a < length ?pids" if "a \<in> set ?keys" for a
    proof -
      have "a \<in> set ?pids" using that keys by auto
      then show ?thesis by (simp add: first_pos_snoc_old first_pos_less del: length_map)
    qed
    ultimately show ?thesis
      using new snoc.IH old True by (simp add: sorted_wrt_append del: length_map)
  qed
qed


lemma find_parent_pid: "find_parent parents pid = Some p \<Longrightarrow> parent_id_of p = pid"
  by (auto simp: find_parent_def find_Some_iff)

lemma find_parent_mem: "find_parent parents pid = Some p \<Longrightarrow> p \<in> set parents"
  by (auto simp: find_parent_def find_Some_iff)

lemma get_parent_documents_agg:
  "get_parent_documents parents cs =
     List.map_filter (map_of (snd (agg_state parents cs)))
       (py_sorted_reverse (\<lambda>x. dict_get_default (fst (agg_state parents cs)) x 0)
          (map fst (fst (agg_state parents cs))))"
  by (simp add: get_parent_documents_def agg_state_def Let_def)

lemma map_filter_pids:
  assumes "\<forall>pid\<in>set xs. m pid = find_parent parents pid"
  shows "map parent_id_of (List.map_filter m xs) = filter (\<lambda>pid. find_parent parents pid \<noteq> None) xs"
  using assms
  by (induction xs) (auto simp: List.map_filter_simps find_parent_pid split: option.splits)

lemma map_filter_set:
  assumes "\<forall>pid\<in>set xs. m pid = find_parent parents pid"
  shows "set (List.map_filter m xs) = {p. \<exists>pid\<in>set xs. find_parent parents pid = Some p}"
  using assms
  by (induction xs) (auto simp: List.map_filter_simps split: option.splits)

lemma sorted_pids_props:
  fixes parents cs
  defines "pids \<equiv> map parent_id_of cs"
  defines "sp \<equiv> py_sorted_reverse (\<lambda>x. dict_get_default (fst (agg_state parents cs)) x 0)
                   (map fst (fst (agg_state parents cs)))"
  shows "distinct sp"
    and "set sp = {pid \<in> set pids. truthy pid}"
    and "sorted_wrt (\<lambda>a b. count_list pids b < count_list pids a \<or>
            (count_list pids a = count_list pids b \<and> first_pos pids a < first_pos pids b)) sp"
proof -
  let ?keys = "map fst (fst (agg_state parents cs))"
  let ?sc = "\<lambda>x. dict_get_default (fst (agg_state parents cs)) x 0"
  show d: "distinct sp"
    using score_keys_order[of parents cs] by (simp add: sp_def distinct_py_sorted_reverse)
  show s: "set sp = {pid \<in> set pids. truthy pid}"
    using score_keys_set[of parents cs] by (simp add: sp_def pids_def set_py_sorted_reverse)
  have sc: "?sc x = int (count_list pids x)" if "x \<in> set sp" for x
    using that s by (auto simp: dict_get_default_def scores_map pids_def)
  have "sorted_wrt (\<lambda>a b. ?sc b < ?sc a \<or> (?sc a = ?sc b \<and> first_pos pids a < first_pos pids b)) sp"
    unfolding sp_def pids_def
    by (rule py_sorted_reverse_sorted) (use score_keys_order[of parents cs] in simp)
  then show "sorted_wrt (\<lambda>a b. count_list pids b < count_list pids a \<or>
            (count_list pids a = count_list pids b \<and> first_pos pids a < first_pos pids b)) sp"
    by (rule sorted_wrt_mono_rel[rotated]) (auto simp: sc)
qed

text \<open>
  C3. The parents returned by \<open>get_parent_documents\<close> have pairwise different
  \<open>parent_id\<close>s; they are ordered by non-increasing number of occurrences of their
  \<open>parent_id\<close> among the input chunks, and of two parents with the same number the one
  whose \<open>parent_id\<close> occurs first in the input comes first; the parents returned are
  exactly the first matching parents of the non-empty \<open>parent_id\<close>s of the input, so a
  chunk whose \<open>parent_id\<close> is missing or matches no parent contributes nothing and raises
  no error.
\<close>

theorem get_parent_documents_ranked:
  "distinct (map parent_id_of (get_parent_documents parents cs)) \<and>
   sorted_wrt (\<lambda>p q.
       count_list (map parent_id_of cs) (parent_id_of q) < count_list (map parent_id_of cs) (parent_id_of p) \<or>
       (count_list (map parent_id_of cs) (parent_id_of p) = count_list (map parent_id_of cs) (parent_id_of q) \<and>
        first_pos (map parent_id_of cs) (parent_id_of p) < first_pos (map parent_id_of cs) (parent_id_of q)))
     (get_parent_documents parents cs) \<and>
   set (get_parent_documents parents cs) =
     {p. \<exists>c\<in>set cs. truthy (parent_id_of c) \<and> find_parent parents (parent_id_of c) = Some p}"
proof -
  let ?pids = "map parent_id_of cs"
  let ?sp = "py_sorted_reverse (\<lambda>x. dict_get_default (fst (agg_state parents cs)) x 0)
                   (map fst (fst (agg_state parents cs)))"
  let ?res = "get_parent_documents parents cs"
  let ?P = "\<lambda>a b. count_list ?pids b < count_list ?pids a \<or>
            (count_list ?pids a = count_list ?pids b \<and> first_pos ?pids a < first_pos ?pids b)"
  note sp = sorted_pids_props[where parents = parents and cs = cs]
  have m: "\<forall>pid\<in>set ?sp. map_of (snd (agg_state parents cs)) pid = find_parent parents pid"
    using sp(2) by (auto simp: parent_map_map)
  have pids: "map parent_id_of ?res = filter (\<lambda>pid. find_parent parents pid \<noteq> None) ?sp"
    unfolding get_parent_documents_agg by (rule map_filter_pids[OF m])
  have 1: "distinct (map parent_id_of ?res)"
    using sp(1) by (simp add: pids)
  have "sorted_wrt ?P (map parent_id_of ?res)"
    unfolding pids using sp(3) by (rule sorted_wrt_filter)
  then have 2: "sorted_wrt (\<lambda>p q. ?P (parent_id_of p) (parent_id_of q)) ?res"
    by (simp add: sorted_wrt_map)
  have "set ?res = {p. \<exists>pid\<in>set ?sp. find_parent parents pid = Some p}"
    unfolding get_parent_documents_agg by (rule map_filter_set[OF m])
  also have "\<dots> = {p. \<exists>c\<in>set cs. truthy (parent_id_of c) \<and> find_parent parents (parent_id_of c) = Some p}"
    unfolding sp(2) by auto
  finally have 3: "set ?res = {p. \<exists>c\<in>set cs. truthy (parent_id_of c) \<and> find_parent parents (parent_id_of c) = Some p}" .
  from 1 2 3 show ?thesis by blast
qed

theorem get_parent_documents_ranked_witness:
  "(distinct (map parent_id_of (get_parent_documents example_parents example_hits)) \<and>
    sorted_wrt (\<lambda>p q.
       count_list (map parent_id_of example_hits) (parent_id_of q)
         < count_list (map parent_id_of example_hits) (parent_id_of p) \<or>
       (count_list (map parent_id_of example_hits) (parent_id_of p)
          = count_list (map parent_id_of example_hits) (parent_id_of q) \<and>
        first_pos (map parent_id_of example_hits) (parent_id_of p)
          < first_pos (map parent_id_of example_hits) (parent_id_of q)))
     (get_parent_documents example_parents example_hits) \<and>
    set (get_parent_documents example_parents example_hits) =
      {p. \<exists>c\<in>set example_hits. truthy (parent_id_of c) \<and>
             find_parent example_parents (parent_id_of c) = Some p}) \<and>
   get_parent_documents example_parents example_hits = [song ''a'', song ''c'', song ''b'']"
proof -
  have "get_parent_documents example_parents example_hits = [song ''a'', song ''c'', song ''b'']"
    by code_simp
  with get_parent_documents_ranked[of example_parents example_hits] show ?thesis
    by (rule conjI)
qed

section \<open>Filter inference\<close>

subsection \<open>Every entry of the filter set comes from the corpus and the query\<close>

lemma set_alist_update: "set (AList.update k v al) \<subseteq> insert (k, v) (set al)"
  by (induction al) auto

lemma update_ok:
  assumes "\<forall>kv\<in>set filters. P kv" and "P (k, v)"
  shows "\<forall>kv\<in>set (AList.update k v filters). P kv"
  using assms set_alist_update[of k v filters] by auto

lemma scan_break_ok:
  assumes "\<forall>kv\<in>set filters. P kv"
    and "\<forall>v\<in>set vs. v \<noteq> [] \<and> sublist v query \<longrightarrow> P (key, v)"
  shows "\<forall>kv\<in>set (scan_break key query vs filters). P kv"
  using assms
proof (induction vs)
  case Nil
  then show ?case by simp
next
  case (Cons v vs)
  show ?case
  proof (cases "v \<noteq> [] \<and> sublist v query")
    case True
    then have "P (key, v)" using Cons.prems(2) by simp
    with Cons.prems(1) have "\<forall>kv\<in>set (AList.update key v filters). P kv"
      by (rule update_ok)
    then show ?thesis using True by simp
  next
    case False
    then show ?thesis using Cons by auto
  qed
qed

lemma scan_all_ok:
  assumes "\<forall>kv\<in>set filters. P kv"
    and "\<forall>v\<in>set vs. v \<noteq> [] \<and> sublist v query \<longrightarrow> P (key, v)"
  shows "\<forall>kv\<in>set (scan_all key query vs filters). P kv"
  using assms
proof (induction vs arbitrary: filters)
  case Nil
  then show ?case by simp
next
  case (Cons v vs)
  have "\<forall>kv\<in>set (if v \<noteq> [] \<and> sublist v query then AList.update key v filters else filters). P kv"
  proof (cases "v \<noteq> [] \<and> sublist v query")
    case True
    then have "P (key, v)" using Cons.prems(2) by simp
    with Cons.prems(1) have "\<forall>kv\<in>set (AList.update key v filters). P kv"
      by (rule update_ok)
    then show ?thesis using True by simp
  next
    case False
    then show ?thesis using Cons.prems(1) by auto
  qed
  then show ?case using Cons.IH Cons.prems(2) by simp
qed

lemma sorted_by_len_observed:
  assumes "set_order iter"
    and "sorted_by_len (field_values iter key docs) = Inr s"
    and "v \<in> set s"
  shows "observed docs key v"
proof -
  let ?vals = "field_values iter key docs"
  have all: "list_all is_str ?vals" and s: "s = py_sorted_reverse length (map str_of ?vals)"
    using assms(2) by (auto simp: sorted_by_len_def split: if_splits)
  then obtain w where w: "w \<in> set ?vals" "v = str_of w"
    using assms(3) by (auto simp: py_sorted_reverse_def)
  then have "is_str w" using all by (simp add: list_all_iff)
  then have "w = PStr v" using w(2) by (cases w) auto
  moreover have "set ?vals \<subseteq> (\<lambda>d. dict_get (metadata d) key) ` set docs"
    using assms(1) by (auto simp: set_order_def field_values_def)
  ultimately have "PStr v \<in> (\<lambda>d. dict_get (metadata d) key) ` set docs"
    using w(1) by blast
  then obtain d where "d \<in> set docs" "dict_get (metadata d) key = PStr v"
    by force
  then show ?thesis unfolding observed_def by blast
qed

text \<open>
  C8. Whatever the corpus and the query, every entry of the filter set returned by
  \<open>extract_filters_from_query\<close> has one of the keys artist, album, region, year, title,
  and its value is non-empty, is a literal substring of the query, and is the value of that
  same field in the metadata of some parent document.
\<close>

theorem extract_filters_sound:
  assumes "set_order iter"
    and "extract_filters_from_query iter docs query = Inr filters"
    and "(k, v) \<in> set filters"
  shows "k \<in> {''artist'', ''album'', ''region'', ''year'', ''title''} \<and> v \<noteq> [] \<and>
         sublist v query \<and> (\<exists>d\<in>set docs. dict_get (metadata d) k = PStr v)"
proof -
  let ?P = "filter_ok docs query"
  obtain s1 s2 s3 s4 s5 where
    s: "sorted_by_len (field_values iter ''artist'' docs) = Inr s1"
       "sorted_by_len (field_values iter ''album'' docs) = Inr s2"
       "sorted_by_len (field_values iter ''region'' docs) = Inr s3"
       "sorted_by_len (field_values iter ''year'' docs) = Inr s4"
       "sorted_by_len (field_values iter ''title'' docs) = Inr s5"
    and f: "filters = scan_all ''title'' query s5 (scan_all ''year'' query s4
              (scan_all ''region'' query s3 (scan_all ''album'' query s2
                (scan_break ''artist'' query s1 []))))"
    using assms(2) unfolding extract_filters_from_query_def Let_def
    by (simp split: sum.splits)
  note obs = sorted_by_len_observed[OF assms(1)]
  have 1: "\<forall>kv\<in>set (scan_break ''artist'' query s1 []). ?P kv"
    by (rule scan_break_ok) (simp_all add: filter_ok_def obs[OF s(1)])
  have 2: "\<forall>kv\<in>set (scan_all ''album'' query s2 (scan_break ''artist'' query s1 [])). ?P kv"
    by (rule scan_all_ok[OF 1]) (simp add: filter_ok_def obs[OF s(2)])
  have 3: "\<forall>kv\<in>set (scan_all ''region'' query s3 (scan_all ''album'' query s2
             (scan_break ''artist'' query s1 []))). ?P kv"
    by (rule scan_all_ok[OF 2]) (simp add: filter_ok_def obs[OF s(3)])
  have 4: "\<forall>kv\<in>set (scan_all ''year'' query s4 (scan_all ''region'' query s3
             (scan_all ''album'' query s2 (scan_break ''artist'' query s1 [])))). ?P kv"
    by (rule scan_all_ok[OF 3]) (simp add: filter_ok_def obs[OF s(4)])
  have "\<forall>kv\<in>set filters. ?P kv"
    unfolding f by (rule scan_all_ok[OF 4]) (simp add: filter_ok_def obs[OF s(5)])
  then have "?P (k, v)" using assms(3) by blast
  then show ?thesis by (simp add: filter_ok_def observed_def)
qed

theorem extract_filters_sound_witness:
  "set_order remdups \<and>
   extract_filters_from_query remdups album_corpus album_query =
     Inr [(''artist'', ascii ''Ann Lee''), (''album'', ascii ''Rose'')] \<and>
   (''album'', ascii ''Rose'') \<in> set [(''artist'', ascii ''Ann Lee''), (''album'', ascii ''Rose'')] \<and>
   (''album'' \<in> {''artist'', ''album'', ''region'', ''year'', ''title''} \<and> ascii ''Rose'' \<noteq> [] \<and>
    sublist (ascii ''Rose'') album_query \<and>
    (\<exists>d\<in>set album_corpus. dict_get (metadata d) ''album'' = PStr (ascii ''Rose'')))"
proof -
  have a: "set_order remdups"
    by (simp add: set_order_def)
  have b: "extract_filters_from_query remdups album_corpus album_query =
             Inr [(''artist'', ascii ''Ann Lee''), (''album'', ascii ''Rose'')]"
    by code_simp
  have c: "(''album'', ascii ''Rose'') \<in> set [(''artist'', ascii ''Ann Lee''), (''album'', ascii ''Rose'')]"
    by simp
  from extract_filters_sound[OF a b c] a b c show ?thesis
    by blast
qed

subsection \<open>Which value of a field is selected\<close>

lemma iter_empty: "set_order iter \<Longrightarrow> iter [] = []"
proof -
  assume "set_order iter"
  then have "set (iter []) = set []" unfolding set_order_def by blast
  then show ?thesis by simp
qed

lemma distinct_pair:
  assumes "distinct xs" "set xs = {a, b}" "a \<noteq> b"
  shows "xs = [a, b] \<or> xs = [b, a]"
proof -
  have "length xs = card (set xs)" using assms(1) by (simp add: distinct_card)
  also have "\<dots> = 2" using assms(2,3) by simp
  finally have "length xs = Suc (Suc 0)" by simp
  then obtain x y where xy: "xs = [x, y]"
    by (auto simp: length_Suc_conv)
  have "{x, y} = {a, b}" using assms(2) xy by simp
  then have "(x = a \<and> y = b) \<or> (x = b \<and> y = a)"
    by (simp add: doubleton_eq_iff)
  with xy show ?thesis by blast
qed

lemma iter_pair:
  assumes "set_order iter" "a \<noteq> b"
  shows "iter [a, b] = [a, b] \<or> iter [a, b] = [b, a]"
proof -
  have "set (iter [a, b]) = set [a, b] \<and> distinct (iter [a, b])"
    using assms(1) unfolding set_order_def by blast
  then have "distinct (iter [a, b])" "set (iter [a, b]) = {a, b}" by auto
  then show ?thesis using assms(2) by (rule distinct_pair)
qed

lemma sorted_by_len_pair:
  assumes "set_order iter" "length y < length x"
  shows "sorted_by_len (iter [PStr y, PStr x]) = Inr [x, y]"
proof -
  have "PStr y \<noteq> PStr x" using assms(2) by auto
  from iter_pair[OF assms(1) this]
  have "iter [PStr y, PStr x] = [PStr y, PStr x] \<or> iter [PStr y, PStr x] = [PStr x, PStr y]" .
  then show ?thesis
  proof
    assume "iter [PStr y, PStr x] = [PStr y, PStr x]"
    then show ?thesis using assms(2) by (simp add: sorted_by_len_def py_sorted_reverse_def)
  next
    assume "iter [PStr y, PStr x] = [PStr x, PStr y]"
    then show ?thesis using assms(2) by (simp add: sorted_by_len_def py_sorted_reverse_def)
  qed
qed

lemma scan_all_no_match:
  "\<forall>v\<in>set vs. \<not> sublist v query \<Longrightarrow> scan_all key query vs filters = filters"
  by (induction vs arbitrary: filters) auto

lemma sorted_by_len_strs:
  assumes "set_order iter" "list_all is_str xs"
  shows "\<exists>s. sorted_by_len (iter xs) = Inr s \<and> set s = str_of ` set xs"
proof -
  have "set (iter xs) = set xs" using assms(1) unfolding set_order_def by blast
  then show ?thesis
    using assms(2) by (simp add: sorted_by_len_def list_all_iff py_sorted_reverse_def)
qed

text \<open>
  C1 says that the value selected for a field is the first one met in the scan from the
  longest value to the shortest, hence the longest of several matching values. The loop
  over the artists stops at its first match; the loops over albums, regions, years and
  titles do not stop, so that the value they leave in the filter set is the last match of
  the scan. On the corpus with the albums \<open>Rose\<close> and \<open>Rose Garden\<close> and the query
  \<open>Ann Lee in Rose Garden\<close>, whatever the enumeration order of the sets, the artist
  selected is the longest match \<open>Ann Lee\<close> and the album selected is the shortest match
  \<open>Rose\<close>.
\<close>

theorem extract_filters_keeps_last_album:
  assumes "set_order iter"
  shows "extract_filters_from_query iter album_corpus album_query =
           Inr [(''artist'', ascii ''Ann Lee''), (''album'', ascii ''Rose'')]"
proof -
  have fv: "field_values iter ''artist'' album_corpus = iter [PStr (ascii ''Ann''), PStr (ascii ''Ann Lee'')]"
    "field_values iter ''album'' album_corpus = iter [PStr (ascii ''Rose''), PStr (ascii ''Rose Garden'')]"
    "field_values iter ''region'' album_corpus = iter []"
    "field_values iter ''year'' album_corpus = iter []"
    "field_values iter ''title'' album_corpus = iter [PStr (ascii ''Dawn''), PStr (ascii ''Dusk'')]"
    by (simp_all add: field_values_def album_corpus_def song_of_def dict_get_def)
  have s1: "sorted_by_len (iter [PStr (ascii ''Ann''), PStr (ascii ''Ann Lee'')]) = Inr [ascii ''Ann Lee'', ascii ''Ann'']"
    by (rule sorted_by_len_pair[OF assms]) (simp add: ascii_def)
  have s2: "sorted_by_len (iter [PStr (ascii ''Rose''), PStr (ascii ''Rose Garden'')]) = Inr [ascii ''Rose Garden'', ascii ''Rose'']"
    by (rule sorted_by_len_pair[OF assms]) (simp add: ascii_def)
  have s3: "sorted_by_len (iter []) = Inr []"
    by (simp add: iter_empty[OF assms] sorted_by_len_def py_sorted_reverse_def)
  obtain s5 where s5: "sorted_by_len (iter [PStr (ascii ''Dawn''), PStr (ascii ''Dusk'')]) = Inr s5"
    and set5: "set s5 = {ascii ''Dawn'', ascii ''Dusk''}"
    using sorted_by_len_strs[OF assms, of "[PStr (ascii ''Dawn''), PStr (ascii ''Dusk'')]"] by auto
  have f1: "scan_break ''artist'' album_query [ascii ''Ann Lee'', ascii ''Ann''] [] = [(''artist'', ascii ''Ann Lee'')]"
    by code_simp
  have f2: "scan_all ''album'' album_query [ascii ''Rose Garden'', ascii ''Rose''] [(''artist'', ascii ''Ann Lee'')]
              = [(''artist'', ascii ''Ann Lee''), (''album'', ascii ''Rose'')]"
    by code_simp
  have n1: "\<not> sublist (ascii ''Dawn'') album_query" by code_simp
  have n2: "\<not> sublist (ascii ''Dusk'') album_query" by code_simp
  have f5: "scan_all ''title'' album_query s5 f = f" for f
    by (rule scan_all_no_match) (use set5 n1 n2 in auto)
  show ?thesis
    by (simp only: extract_filters_from_query_def Let_def fv s1 s2 s3 s5 sum.case f1 f2 f5
          scan_all.simps(1))
qed

theorem extract_filters_keeps_last_album_witness:
  "set_order (\<lambda>xs. rev (remdups xs)) \<and>
   extract_filters_from_query (\<lambda>xs. rev (remdups xs)) album_corpus album_query =
     Inr [(''artist'', ascii ''Ann Lee''), (''album'', ascii ''Rose'')]"
proof -
  have a: "set_order (\<lambda>xs. rev (remdups xs))"
    by (simp add: set_order_def)
  from extract_filters_keeps_last_album[OF a] a show ?thesis
    by blast
qed



end
